theory Spec2Isabelle
  imports Main
begin

section \<open>Python integer operations that can leave the integers\<close>

text \<open>
  The notebook \<^verbatim>\<open>cryptography/homomorphic-encryption.ipynb\<close> computes on Python's
  unbounded integers, modelled as \<^typ>\<open>int\<close>. Four things can stop a computation from
  returning an integer, and each is a value of \<open>error\<close>:
  \<^item> \<open>NoModularInverse\<close>: \<^verbatim>\<open>raise Exception('modular inverse does not exist')\<close> in
    \<^verbatim>\<open>modinv\<close>;
  \<^item> \<open>ZeroDivisionError\<close>: \<^verbatim>\<open>x % 0\<close>, and \<^verbatim>\<open>0 ** e\<close> with \<^verbatim>\<open>e < 0\<close>;
  \<^item> \<open>ValueError\<close>: \<^verbatim>\<open>randint(lo, hi)\<close> with \<^verbatim>\<open>lo > hi\<close>;
  \<^item> \<open>FloatResult\<close>: \<^verbatim>\<open>x ** e\<close> with \<^verbatim>\<open>e < 0\<close> and \<^verbatim>\<open>x != 0\<close>, whose value is a float
    and not an integer any more.
\<close>

datatype error = NoModularInverse | ZeroDivisionError | ValueError | FloatResult

definition bind_err :: "error + 'a \<Rightarrow> ('a \<Rightarrow> error + 'b) \<Rightarrow> error + 'b" where
  "bind_err r f = (case r of Inl e \<Rightarrow> Inl e | Inr v \<Rightarrow> f v)"

text \<open>\<^verbatim>\<open>x % m\<close>: Python's remainder has the sign of the divisor, as \<open>mod\<close> on \<^typ>\<open>int\<close> has.\<close>

definition py_mod :: "int \<Rightarrow> int \<Rightarrow> error + int" where
  "py_mod x m = (if m = 0 then Inl ZeroDivisionError else Inr (x mod m))"

text \<open>\<^verbatim>\<open>x ** e\<close> on integers.\<close>

definition py_pow :: "int \<Rightarrow> int \<Rightarrow> error + int" where
  "py_pow x e =
     (if 0 \<le> e then Inr (x ^ nat e)
      else if x = 0 then Inl ZeroDivisionError
      else Inl FloatResult)"

text \<open>
  \<^verbatim>\<open>randint(lo, hi)\<close> returns some integer of the closed range, and raises when the
  range is empty. The operations that draw random numbers take the drawn values as
  arguments; \<open>randint lo hi\<close> is the set of values a draw can have.
\<close>

definition randint :: "int \<Rightarrow> int \<Rightarrow> int set" where
  "randint lo hi = {lo..hi}"

text \<open>Primality, which the notebook asks of its callers and never checks.\<close>

definition is_prime :: "int \<Rightarrow> bool" where
  "is_prime p \<longleftrightarrow> 2 \<le> p \<and> (\<forall>n\<in>{2..p - 1}. \<not> n dvd p)"

section \<open>Modular arithmetic utilities\<close>

text \<open>
  \<^verbatim>\<open>
  def egcd(a, b):
      if a == 0:
          return (b, 0, 1)
      else:
          g, y, x = egcd(b % a, a)
          return (g, x - (b // a) * y, y)
  \<close>
  The division and the remainder are only reached with \<^verbatim>\<open>a != 0\<close>.
\<close>

function egcd :: "int \<Rightarrow> int \<Rightarrow> int \<times> int \<times> int" where
  "egcd a b =
     (if a = 0 then (b, 0, 1)
      else (case egcd (b mod a) a of (g, y, x) \<Rightarrow> (g, x - (b div a) * y, y)))"
  by pat_completeness auto
termination
  by (relation "measure (\<lambda>(a, b). nat \<bar>a\<bar>)") (auto simp: abs_mod_less)

declare egcd.simps [simp del]

text \<open>
  \<^verbatim>\<open>
  def modinv(a, m):
      g, x, y = egcd(a, m)
      if g != 1:
          raise Exception('modular inverse does not exist')
      else:
          return x % m
  \<close>
\<close>

definition modinv :: "int \<Rightarrow> int \<Rightarrow> error + int" where
  "modinv a m =
     (case egcd a m of (g, x, y) \<Rightarrow>
        if g \<noteq> 1 then Inl NoModularInverse else py_mod x m)"

section \<open>ElGamal\<close>

record elgamal_PublicKey =
  eg_pk_p :: int
  eg_pk_a :: int
  eg_pk_b :: int

record elgamal_SecretKey =
  eg_sk_d :: int

record elgamal_Ciphertext =
  eg_ct_r :: int
  eg_ct_t :: int

text \<open>
  \<^verbatim>\<open>
  def keygen(p):
      # a: 1 < a < p - 1
      a = randint(1, p - 1)
      # d: 2 <= d <= p - 2
      d = randint(2, p - 2)
      b = (a ** d) % p
      return (PublicKey(p, a, b), SecretKey(d))
  \<close>
  \<open>elgamal_keygen p a d\<close> is the run in which the first draw returns \<open>a\<close> and the second
  returns \<open>d\<close>.
\<close>

definition elgamal_keygen ::
  "int \<Rightarrow> int \<Rightarrow> int \<Rightarrow> error + (elgamal_PublicKey \<times> elgamal_SecretKey)" where
  "elgamal_keygen p a d =
     (if randint 1 (p - 1) = {} then Inl ValueError
      else if randint 2 (p - 2) = {} then Inl ValueError
      else bind_err (py_pow a d) (\<lambda>ad.
           bind_err (py_mod ad p) (\<lambda>b.
           Inr (\<lparr>eg_pk_p = p, eg_pk_a = a, eg_pk_b = b\<rparr>, \<lparr>eg_sk_d = d\<rparr>))))"

text \<open>
  \<^verbatim>\<open>
  def encrypt(message, pk):
      k = randint(0, 100)
      r = (pk.a ** k) % pk.p
      t = ((pk.b ** k) * message) % pk.p
      return Ciphertext(r, t)
  \<close>
  \<open>elgamal_encrypt k message pk\<close> is the run in which the draw returns \<open>k\<close>.
\<close>

definition elgamal_encrypt ::
  "int \<Rightarrow> int \<Rightarrow> elgamal_PublicKey \<Rightarrow> error + elgamal_Ciphertext" where
  "elgamal_encrypt k message pk =
     bind_err (py_pow (eg_pk_a pk) k) (\<lambda>ak.
     bind_err (py_mod ak (eg_pk_p pk)) (\<lambda>r.
     bind_err (py_pow (eg_pk_b pk) k) (\<lambda>bk.
     bind_err (py_mod (bk * message) (eg_pk_p pk)) (\<lambda>t.
     Inr \<lparr>eg_ct_r = r, eg_ct_t = t\<rparr>))))"

text \<open>
  \<^verbatim>\<open>
  def decrypt(c, pk, sk):
      return ((c.r ** sk.d) ** (pk.p - 2) * c.t) % pk.p
  \<close>
\<close>

definition elgamal_decrypt ::
  "elgamal_Ciphertext \<Rightarrow> elgamal_PublicKey \<Rightarrow> elgamal_SecretKey \<Rightarrow> error + int" where
  "elgamal_decrypt c pk sk =
     bind_err (py_pow (eg_ct_r c) (eg_sk_d sk)) (\<lambda>rd.
     bind_err (py_pow rd (eg_pk_p pk - 2)) (\<lambda>inv.
     py_mod (inv * eg_ct_t c) (eg_pk_p pk)))"

text \<open>
  \<^verbatim>\<open>
  def mult(a, b):
      return Ciphertext(a.r * b.r, a.t * b.t)
  \<close>
\<close>

definition elgamal_mult :: "elgamal_Ciphertext \<Rightarrow> elgamal_Ciphertext \<Rightarrow> elgamal_Ciphertext" where
  "elgamal_mult x y = \<lparr>eg_ct_r = eg_ct_r x * eg_ct_r y, eg_ct_t = eg_ct_t x * eg_ct_t y\<rparr>"

section \<open>RSA\<close>

record rsa_PublicKey =
  rsa_pk_e :: int
  rsa_pk_n :: int

record rsa_SecretKey =
  rsa_sk_d :: int
  rsa_sk_n :: int

record rsa_Ciphertext =
  rsa_ct_m :: int

text \<open>
  The search of \<^verbatim>\<open>keygen\<close> for the public exponent,
  \<^verbatim>\<open>
      e = 2
      while gcd(phi, e) != 1:
          e += 1
  \<close>
  from the current value of \<open>e\<close>. The loop has no bound, so not returning is \<open>None\<close>.
  \<^verbatim>\<open>math.gcd\<close> is the non-negative greatest common divisor, as \<open>gcd\<close> on \<^typ>\<open>int\<close> is.
\<close>

partial_function (option) keygen_scan :: "int \<Rightarrow> int \<Rightarrow> int option" where
  "keygen_scan phi e = (if gcd phi e \<noteq> 1 then keygen_scan phi (e + 1) else Some e)"

declare keygen_scan.simps [code]

text \<open>
  \<^verbatim>\<open>
  def keygen(p, q):
      n = p * q
      phi = (p - 1) * (q - 1)
      e = 2
      while gcd(phi, e) != 1:
          e += 1
      d = modinv(e, phi)
      return (PublicKey(e, n), SecretKey(d, n))
  \<close>
\<close>

definition rsa_keygen :: "int \<Rightarrow> int \<Rightarrow> (error + (rsa_PublicKey \<times> rsa_SecretKey)) option" where
  "rsa_keygen p q =
     (let n = p * q; phi = (p - 1) * (q - 1) in
      case keygen_scan phi 2 of
        None \<Rightarrow> None
      | Some e \<Rightarrow>
          Some (bind_err (modinv e phi) (\<lambda>d.
                Inr (\<lparr>rsa_pk_e = e, rsa_pk_n = n\<rparr>, \<lparr>rsa_sk_d = d, rsa_sk_n = n\<rparr>))))"

text \<open>
  \<^verbatim>\<open>
  def encrypt(message, pk):
      return Ciphertext(message ** pk.e % pk.n)
  def decrypt(c, sk):
      return c.m ** sk.d % sk.n
  def mult(a, b):
      return Ciphertext(m=(a.m * b.m))
  \<close>
  \<^verbatim>\<open>**\<close> binds tighter than \<^verbatim>\<open>%\<close>.
\<close>

definition rsa_encrypt :: "int \<Rightarrow> rsa_PublicKey \<Rightarrow> error + rsa_Ciphertext" where
  "rsa_encrypt message pk =
     bind_err (py_pow message (rsa_pk_e pk)) (\<lambda>me.
     bind_err (py_mod me (rsa_pk_n pk)) (\<lambda>c.
     Inr \<lparr>rsa_ct_m = c\<rparr>))"

definition rsa_decrypt :: "rsa_Ciphertext \<Rightarrow> rsa_SecretKey \<Rightarrow> error + int" where
  "rsa_decrypt c sk =
     bind_err (py_pow (rsa_ct_m c) (rsa_sk_d sk)) (\<lambda>cd. py_mod cd (rsa_sk_n sk))"

definition rsa_mult :: "rsa_Ciphertext \<Rightarrow> rsa_Ciphertext \<Rightarrow> rsa_Ciphertext" where
  "rsa_mult x y = \<lparr>rsa_ct_m = rsa_ct_m x * rsa_ct_m y\<rparr>"

section \<open>Fermat's little theorem for \<open>is_prime\<close>\<close>

lemma is_prime_divisors:
  assumes "is_prime p" "g dvd p" "0 \<le> g"
  shows "g = 1 \<or> g = p"
proof -
  from assms(1) have p: "2 \<le> p" and nd: "\<And>n. 2 \<le> n \<Longrightarrow> n \<le> p - 1 \<Longrightarrow> \<not> n dvd p"
    by (auto simp: is_prime_def)
  from assms(2) p have "g \<noteq> 0" by auto
  with assms(3) have "1 \<le> g" by simp
  moreover from assms(2) p have "g \<le> p" by (simp add: zdvd_imp_le)
  ultimately show ?thesis using nd [of g] assms(2) by force
qed

lemma is_prime_coprime:
  assumes "is_prime p" "\<not> p dvd a"
  shows "coprime p a"
proof -
  have "gcd p a = 1 \<or> gcd p a = p"
    by (rule is_prime_divisors [OF assms(1)]) simp_all
  moreover have "gcd p a \<noteq> p"
    using assms(2) by (metis gcd_dvd2)
  ultimately show ?thesis by (simp add: coprime_iff_gcd_eq_1)
qed

lemma is_prime_dvd_mult:
  assumes "is_prime p" "p dvd a * b"
  shows "p dvd a \<or> p dvd b"
proof (cases "p dvd a")
  case True
  then show ?thesis by simp
next
  case False
  then have "coprime p a" by (rule is_prime_coprime [OF assms(1)])
  then have "p dvd a * b \<longleftrightarrow> p dvd b" by (rule coprime_dvd_mult_right_iff)
  with assms(2) show ?thesis by simp
qed

lemma is_prime_dvd_choose:
  assumes "is_prime (int p)" "0 < k" "k < p"
  shows "int p dvd int (p choose k)"
proof -
  obtain k' where k: "k = Suc k'"
    using assms(2) by (cases k) auto
  obtain p' where p: "p = Suc p'"
    using assms(2,3) by (cases p) auto
  have "Suc k' * (Suc p' choose Suc k') = Suc p' * (p' choose k')"
    by (rule Suc_times_binomial)
  then have "int k * int (p choose k) = int p * int (p' choose k')"
    unfolding k p by (simp only: of_nat_mult [symmetric])
  then have "int p dvd int k * int (p choose k)"
    by simp
  then have "int p dvd int k \<or> int p dvd int (p choose k)"
    by (rule is_prime_dvd_mult [OF assms(1)])
  moreover have "\<not> int p dvd int k"
    using assms(2,3) by (simp add: nat_dvd_not_less)
  ultimately show ?thesis by simp
qed

lemma fermat_step:
  fixes a :: int
  assumes "is_prime (int p)"
  shows "int p dvd (a + 1) ^ p - (a ^ p + 1)"
proof -
  from assms have p: "2 \<le> p" by (simp add: is_prime_def)
  have "(a + 1) ^ p = (\<Sum>k\<le>p. int (p choose k) * a ^ k)"
    by (simp add: binomial_ring)
  also have "{..p} = insert 0 (insert p {1..<p})"
    using p by auto
  also have "(\<Sum>k\<in>insert 0 (insert p {1..<p}). int (p choose k) * a ^ k)
      = 1 + a ^ p + (\<Sum>k\<in>{1..<p}. int (p choose k) * a ^ k)"
    using p by simp
  finally have "(a + 1) ^ p - (a ^ p + 1) = (\<Sum>k\<in>{1..<p}. int (p choose k) * a ^ k)"
    by simp
  moreover have "int p dvd (\<Sum>k\<in>{1..<p}. int (p choose k) * a ^ k)"
  proof (rule dvd_sum)
    fix k assume "k \<in> {1..<p}"
    then have "0 < k" "k < p" by auto
    then have "int p dvd int (p choose k)"
      by (rule is_prime_dvd_choose [OF assms])
    then show "int p dvd int (p choose k) * a ^ k"
      by (rule dvd_mult2)
  qed
  ultimately show ?thesis by simp
qed

lemma fermat_nat:
  assumes "is_prime (int p)"
  shows "int p dvd (int n) ^ p - int n"
proof (induction n)
  case 0
  from assms have "0 < p" by (simp add: is_prime_def)
  then show ?case by (simp add: zero_power)
next
  case (Suc n)
  have split: "(int n + 1) ^ p - (int n + 1) = ((int n + 1) ^ p - (int n ^ p + 1)) + (int n ^ p - int n)"
    by simp
  have "int p dvd (int n + 1) ^ p - (int n ^ p + 1)"
    by (rule fermat_step [OF assms])
  then have "int p dvd ((int n + 1) ^ p - (int n ^ p + 1)) + (int n ^ p - int n)"
    using Suc.IH by (rule dvd_add)
  then have "int p dvd (int n + 1) ^ p - (int n + 1)"
    by (simp only: split)
  moreover have "int (Suc n) = int n + 1" by simp
  ultimately show ?case by (simp only:)
qed

lemma fermat_little:
  assumes "is_prime p" "\<not> p dvd x"
  shows "x ^ nat (p - 1) mod p = 1"
proof -
  from assms(1) have p: "2 \<le> p" by (simp add: is_prime_def)
  obtain n where n: "nat p = Suc n"
    using p by (cases "nat p") auto
  have np: "int (Suc n) = p" using p n by linarith
  define y where "y = x mod p"
  have y0: "0 \<le> y" using p by (simp add: y_def)
  have ndy: "\<not> p dvd y" using assms(2) by (simp add: y_def dvd_eq_mod_eq_0)
  have "int (Suc n) dvd int (nat y) ^ Suc n - int (nat y)"
    by (rule fermat_nat) (simp only: np assms(1))
  then have "p dvd y ^ Suc n - y" using y0 by (simp only: np int_nat_eq if_True)
  moreover have "y ^ Suc n - y = y * (y ^ n - 1)"
    by (simp add: right_diff_distrib)
  ultimately have "p dvd y * (y ^ n - 1)" by (simp only:)
  then have "p dvd y ^ n - 1"
    using is_prime_dvd_mult [OF assms(1), of y "y ^ n - 1"] ndy by blast
  then have "y ^ n mod p = 1 mod p"
    by (simp only: mod_eq_dvd_iff)
  then have yn: "y ^ n mod p = 1" using p by simp
  have "nat (p - 1) = n" using n p by linarith
  moreover have "x ^ n mod p = y ^ n mod p"
    unfolding y_def by (simp only: power_mod)
  ultimately show ?thesis using yn by (simp only:)
qed

section \<open>The extended Euclidean algorithm\<close>

lemma egcd_bezout: "egcd a b = (g, x, y) \<Longrightarrow> a * x + b * y = g"
proof (induction a b arbitrary: g x y rule: egcd.induct)
  case (1 a b)
  show ?case
  proof (cases "a = 0")
    case True
    with "1.prems" show ?thesis by (simp add: egcd.simps)
  next
    case False
    obtain g' y' x' where rec: "egcd (b mod a) a = (g', y', x')"
      by (cases "egcd (b mod a) a") auto
    define q r where "q = b div a" and "r = b mod a"
    have b: "b = a * q + r"
      by (simp add: q_def r_def)
    from "1.IH" [OF False rec] have ih: "r * y' + a * x' = g'"
      by (simp add: r_def)
    from "1.prems" False rec have eqs: "g = g'" "x = x' - q * y'" "y = y'"
      by (auto simp add: egcd.simps [of a b] q_def)
    have "a * x + b * y = r * y' + a * x'"
      unfolding eqs b by (simp add: algebra_simps)
    with ih eqs show ?thesis by simp
  qed
qed

text \<open>
  The first component is the greatest common divisor as long as the first argument is
  not negative (and the second is not either when the first is zero): the recursion
  keeps this, since \<open>b mod a\<close> lies in \<open>[0, a)\<close> for \<open>a > 0\<close>.
\<close>

lemma egcd_gcd: "0 \<le> a \<Longrightarrow> (a = 0 \<longrightarrow> 0 \<le> b) \<Longrightarrow> fst (egcd a b) = gcd a b"
proof (induction a b rule: egcd.induct)
  case (1 a b)
  show ?case
  proof (cases "a = 0")
    case True
    with "1.prems" show ?thesis by (simp add: egcd.simps)
  next
    case False
    with "1.prems" have pos: "0 < a" by simp
    then have "0 \<le> b mod a" by simp
    moreover have "b mod a = 0 \<longrightarrow> 0 \<le> a" using pos by simp
    ultimately have "fst (egcd (b mod a) a) = gcd (b mod a) a"
      using "1.IH" [OF False] by blast
    moreover have "fst (egcd a b) = fst (egcd (b mod a) a)"
      using False by (simp add: egcd.simps [of a b] split: prod.splits)
    moreover have "gcd (b mod a) a = gcd a b"
      by (metis gcd.commute gcd_red_int)
    ultimately show ?thesis by simp
  qed
qed

text \<open>
  C6. For all non-negative integers \<open>a\<close> and \<open>b\<close>, \<open>egcd a b\<close> is a triple \<open>(g, x, y)\<close>
  with \<open>g = gcd a b\<close> and \<open>a * x + b * y = g\<close>; for \<open>a = 0\<close> the triple is \<open>(b, 0, 1)\<close>;
  and \<open>egcd 1071 462 = (21, -3, 7)\<close>.
\<close>

theorem egcd_correct:
  "0 \<le> a \<Longrightarrow> 0 \<le> b \<Longrightarrow>
     (\<exists>g x y. egcd a b = (g, x, y) \<and> g = gcd a b \<and> a * x + b * y = g)
     \<and> egcd 0 b = (b, 0, 1)
     \<and> egcd 1071 462 = (21, - 3, 7)"
proof (intro conjI)
  assume a: "0 \<le> a" and b: "0 \<le> b"
  obtain g x y where e: "egcd a b = (g, x, y)"
    by (cases "egcd a b") auto
  have "fst (egcd a b) = gcd a b"
    using a b by (simp add: egcd_gcd)
  with e have "g = gcd a b" by simp
  moreover from e have "a * x + b * y = g" by (rule egcd_bezout)
  ultimately show "\<exists>g x y. egcd a b = (g, x, y) \<and> g = gcd a b \<and> a * x + b * y = g"
    using e by blast
next
  show "egcd 0 b = (b, 0, 1)"
    by (simp add: egcd.simps)
next
  show "egcd 1071 462 = (21, - 3, 7)"
    by code_simp
qed

theorem egcd_correct_witness:
  "(0::int) \<le> 240 \<and> (0::int) \<le> 46
   \<and> (\<exists>g x y. egcd 240 46 = (g, x, y) \<and> g = gcd 240 46 \<and> 240 * x + 46 * y = g)
   \<and> egcd 0 46 = (46, 0, 1)"
  using egcd_correct [of 240 46] by simp

section \<open>The modular inverse\<close>

lemma modinv_unfold:
  "modinv a m =
     (if fst (egcd a m) \<noteq> 1 then Inl NoModularInverse else py_mod (fst (snd (egcd a m))) m)"
  by (simp add: modinv_def split: prod.splits)

lemma modinv_raises:
  assumes "0 \<le> a" "1 \<le> m"
  shows "modinv a m = (if gcd a m \<noteq> 1 then Inl NoModularInverse
                       else Inr (fst (snd (egcd a m)) mod m))"
proof -
  have "fst (egcd a m) = gcd a m"
    using assms by (simp add: egcd_gcd)
  then show ?thesis using assms by (simp add: modinv_unfold py_mod_def)
qed

lemma modinv_inverse:
  assumes "modinv a m = Inr x" "1 < m"
  shows "0 \<le> x \<and> x < m \<and> (a * x) mod m = 1"
proof -
  obtain g u v where e: "egcd a m = (g, u, v)"
    by (cases "egcd a m") auto
  from assms e have g: "g = 1" and x: "x = u mod m"
    by (auto simp: modinv_def py_mod_def split: if_splits)
  from e have "a * u + m * v = g" by (rule egcd_bezout)
  with g have "(a * u + m * v) mod m = 1 mod m" by simp
  then have "(a * u) mod m = 1" using assms(2) by simp
  then have "(a * (u mod m)) mod m = 1" by (simp add: mod_mult_right_eq)
  with x assms(2) show ?thesis by simp
qed

lemma inverse_mod_unique:
  fixes a :: int
  assumes "(a * x) mod m = 1" "(a * x') mod m = 1" "0 \<le> x" "x < m" "0 \<le> x'" "x' < m"
  shows "x' = x"
proof -
  have "x' mod m = (x' * ((a * x) mod m)) mod m"
    using assms(1) by simp
  also have "\<dots> = (x' * (a * x)) mod m"
    by (simp only: mod_mult_right_eq)
  also have "x' * (a * x) = x * (a * x')"
    by (simp add: mult.commute mult.left_commute)
  also have "(x * (a * x')) mod m = (x * ((a * x') mod m)) mod m"
    by (simp only: mod_mult_right_eq)
  also have "\<dots> = x mod m"
    using assms(2) by simp
  finally show ?thesis using assms(3-6) by simp
qed

text \<open>
  C7, amended. For \<open>a \<ge> 0\<close> and \<open>m \<ge> 1\<close>, \<open>modinv a m\<close> raises if and only if
  \<open>gcd a m \<noteq> 1\<close>, and the error is then the one of the missing inverse; for coprime
  \<open>a\<close> and \<open>m > 1\<close> it returns the unique \<open>x\<close> of \<open>[0, m)\<close> with \<open>(a * x) mod m = 1\<close>; and
  \<open>modinv 17 3120 = 2753\<close>.
\<close>

theorem modinv_correct:
  "0 \<le> a \<Longrightarrow> 1 \<le> m \<Longrightarrow>
     ((\<exists>e. modinv a m = Inl e) \<longleftrightarrow> gcd a m \<noteq> 1)
     \<and> (gcd a m \<noteq> 1 \<longrightarrow> modinv a m = Inl NoModularInverse)
     \<and> (gcd a m = 1 \<and> 1 < m \<longrightarrow>
          (\<exists>x. modinv a m = Inr x \<and> 0 \<le> x \<and> x < m \<and> (a * x) mod m = 1
               \<and> (\<forall>x'. 0 \<le> x' \<and> x' < m \<and> (a * x') mod m = 1 \<longrightarrow> x' = x)))
     \<and> modinv 17 3120 = Inr 2753"
proof (intro conjI impI)
  assume a: "0 \<le> a" and m: "1 \<le> m"
  note r = modinv_raises [OF a m]
  show "(\<exists>e. modinv a m = Inl e) \<longleftrightarrow> gcd a m \<noteq> 1"
    by (simp add: r)
  show "modinv a m = Inl NoModularInverse" if "gcd a m \<noteq> 1"
    using that by (simp add: r)
  show "\<exists>x. modinv a m = Inr x \<and> 0 \<le> x \<and> x < m \<and> (a * x) mod m = 1
            \<and> (\<forall>x'. 0 \<le> x' \<and> x' < m \<and> (a * x') mod m = 1 \<longrightarrow> x' = x)"
    if h: "gcd a m = 1 \<and> 1 < m"
  proof -
    obtain x where x: "modinv a m = Inr x"
      using h by (simp add: r)
    from h have m1: "1 < m" by simp
    from modinv_inverse [OF x m1]
    have inv: "0 \<le> x" "x < m" "(a * x) mod m = 1" by simp_all
    have "\<forall>x'. 0 \<le> x' \<and> x' < m \<and> (a * x') mod m = 1 \<longrightarrow> x' = x"
      using inv by (blast intro: inverse_mod_unique)
    with x inv show ?thesis by blast
  qed
next
  show "modinv 17 3120 = Inr 2753"
    by code_simp
qed

theorem modinv_correct_witness:
  "(0::int) \<le> 3 \<and> (1::int) \<le> 7
   \<and> ((\<exists>e. modinv 3 7 = Inl e) \<longleftrightarrow> gcd (3::int) 7 \<noteq> 1)
   \<and> gcd (3::int) 7 = 1 \<and> (1::int) < 7
   \<and> (\<exists>x. modinv 3 7 = Inr x \<and> 0 \<le> x \<and> x < 7 \<and> (3 * x) mod 7 = 1
            \<and> (\<forall>x'. 0 \<le> x' \<and> x' < 7 \<and> (3 * x') mod 7 = 1 \<longrightarrow> x' = x))"
proof -
  have g: "gcd (3::int) 7 = 1" by code_simp
  show ?thesis using modinv_correct [of 3 7] g by simp
qed

text \<open>
  Without the bound on \<open>a\<close> the equivalence of C7 fails: a negative first argument keeps
  the first component of \<open>egcd\<close> negative, so \<open>modinv (-1) 5\<close> raises although
  \<open>gcd (-1) 5 = 1\<close> (and \<open>4\<close> is an inverse of \<open>-1\<close> modulo \<open>5\<close>).
\<close>

theorem modinv_negative_counterexample:
  "gcd (- 1 :: int) 5 = 1 \<and> modinv (- 1) 5 = Inl NoModularInverse"
  by code_simp

section \<open>ElGamal: what the operations return\<close>

lemma randint_iff: "x \<in> randint lo hi \<longleftrightarrow> lo \<le> x \<and> x \<le> hi"
  by (simp add: randint_def)

lemma elgamal_keygen_returns:
  assumes "a \<in> randint 1 (p - 1)" "d \<in> randint 2 (p - 2)"
  shows "elgamal_keygen p a d =
           Inr (\<lparr>eg_pk_p = p, eg_pk_a = a, eg_pk_b = a ^ nat d mod p\<rparr>, \<lparr>eg_sk_d = d\<rparr>)"
proof -
  from assms have "randint 1 (p - 1) \<noteq> {}" "randint 2 (p - 2) \<noteq> {}" by auto
  moreover from assms have "0 \<le> d" "p \<noteq> 0" by (auto simp: randint_iff)
  ultimately show ?thesis
    by (simp add: elgamal_keygen_def bind_err_def py_pow_def py_mod_def)
qed

lemma elgamal_encrypt_returns:
  assumes "0 \<le> k" "eg_pk_p pk \<noteq> 0"
  shows "elgamal_encrypt k message pk =
           Inr \<lparr>eg_ct_r = eg_pk_a pk ^ nat k mod eg_pk_p pk,
                eg_ct_t = (eg_pk_b pk ^ nat k * message) mod eg_pk_p pk\<rparr>"
  using assms by (simp add: elgamal_encrypt_def bind_err_def py_pow_def py_mod_def)

lemma elgamal_decrypt_returns:
  assumes "0 \<le> eg_sk_d sk" "2 \<le> eg_pk_p pk"
  shows "elgamal_decrypt c pk sk =
           Inr (((eg_ct_r c ^ nat (eg_sk_d sk)) ^ nat (eg_pk_p pk - 2) * eg_ct_t c) mod eg_pk_p pk)"
  using assms by (simp add: elgamal_decrypt_def bind_err_def py_pow_def py_mod_def)

section \<open>ElGamal: unmasking\<close>

lemma is_prime_dvd_power:
  assumes "is_prime p" "p dvd x ^ n"
  shows "p dvd x"
  using assms(2)
proof (induction n)
  case 0
  with assms(1) show ?case by (simp add: is_prime_def)
next
  case (Suc n)
  then have "p dvd x * x ^ n" by simp
  then have "p dvd x \<or> p dvd x ^ n" by (rule is_prime_dvd_mult [OF assms(1)])
  with Suc.IH show ?case by blast
qed

text \<open>
  The ciphertext \<open>(R, T)\<close> masks \<open>M\<close> with the exponent \<open>K\<close> under the key \<open>b = a ^ D mod p\<close>;
  the components need not be reduced.
\<close>

lemma elgamal_unmask:
  assumes p: "is_prime p" and a: "\<not> p dvd a"
    and R: "R mod p = a ^ K mod p"
    and T: "T mod p = ((a ^ D mod p) ^ K * M) mod p"
  shows "((R ^ D) ^ nat (p - 2) * T) mod p = M mod p"
proof -
  from p have p2: "2 \<le> p" by (simp add: is_prime_def)
  define x where "x = a ^ (K * D)"
  have nx: "\<not> p dvd x"
    using a is_prime_dvd_power [OF p] unfolding x_def by blast
  have one: "x ^ nat (p - 1) mod p = 1"
    using p nx by (rule fermat_little)
  have "R ^ D mod p = (R mod p) ^ D mod p"
    by (simp only: power_mod)
  also have "\<dots> = (a ^ K) ^ D mod p"
    by (simp only: R power_mod)
  finally have RD: "R ^ D mod p = x mod p"
    by (simp add: x_def power_mult)
  have "(R ^ D) ^ nat (p - 2) mod p = (R ^ D mod p) ^ nat (p - 2) mod p"
    by (simp only: power_mod)
  also have "\<dots> = x ^ nat (p - 2) mod p"
    by (simp only: RD power_mod)
  finally have inv: "(R ^ D) ^ nat (p - 2) mod p = x ^ nat (p - 2) mod p" .
  have "(a ^ D mod p) ^ K mod p = (a ^ D) ^ K mod p"
    by (simp only: power_mod)
  also have "(a ^ D) ^ K = x"
    by (simp add: x_def power_mult mult.commute)
  finally have bK: "(a ^ D mod p) ^ K mod p = x mod p" .
  have "((a ^ D mod p) ^ K * M) mod p = (x * M) mod p"
    using bK by (rule mod_mult_cong) simp
  with T have T': "T mod p = (x * M) mod p" by simp
  have "((R ^ D) ^ nat (p - 2) * T) mod p = (x ^ nat (p - 2) * (x * M)) mod p"
    using inv T' by (rule mod_mult_cong)
  also have "x ^ nat (p - 2) * (x * M) = x ^ Suc (nat (p - 2)) * M"
    by simp
  also have "Suc (nat (p - 2)) = nat (p - 1)"
    using p2 by simp
  also have "(x ^ nat (p - 1) * M) mod p = ((x ^ nat (p - 1) mod p) * M) mod p"
    by (simp only: mod_mult_left_eq)
  also have "\<dots> = M mod p"
    by (simp add: one)
  finally show ?thesis .
qed

lemma randint_not_dvd:
  assumes "a \<in> randint 1 (p - 1)"
  shows "\<not> p dvd a"
  using assms by (simp add: randint_iff zdvd_not_zless)


section \<open>ElGamal: round trip and homomorphism\<close>

text \<open>
  C3. For every prime \<open>p \<ge> 5\<close>, every key pair that \<open>keygen\<close> can return for \<open>p\<close>, every
  plaintext of \<open>[0, p)\<close> and every ephemeral exponent that \<open>encrypt\<close> can draw, decrypting
  the encryption gives the plaintext back (so \<open>42\<close> round-trips under \<open>p = 47\<close>).
\<close>

theorem elgamal_roundtrip:
  "is_prime p \<Longrightarrow> 5 \<le> p \<Longrightarrow> a \<in> randint 1 (p - 1) \<Longrightarrow> d \<in> randint 2 (p - 2) \<Longrightarrow>
   k \<in> randint 0 100 \<Longrightarrow> 0 \<le> plaintext \<Longrightarrow> plaintext < p \<Longrightarrow>
   \<exists>pk sk c. elgamal_keygen p a d = Inr (pk, sk)
     \<and> elgamal_encrypt k plaintext pk = Inr c
     \<and> elgamal_decrypt c pk sk = Inr plaintext"
proof -
  assume p: "is_prime p" and p5: "5 \<le> p"
    and a: "a \<in> randint 1 (p - 1)" and d: "d \<in> randint 2 (p - 2)"
    and k: "k \<in> randint 0 100" and m: "0 \<le> plaintext" "plaintext < p"
  define pk where "pk = \<lparr>eg_pk_p = p, eg_pk_a = a, eg_pk_b = a ^ nat d mod p\<rparr>"
  define sk where "sk = \<lparr>eg_sk_d = d\<rparr>"
  define c where "c = \<lparr>eg_ct_r = a ^ nat k mod p, eg_ct_t = ((a ^ nat d mod p) ^ nat k * plaintext) mod p\<rparr>"
  from d k have d0: "0 \<le> d" and k0: "0 \<le> k" by (simp_all add: randint_iff)
  have kg: "elgamal_keygen p a d = Inr (pk, sk)"
    unfolding pk_def sk_def using a d by (rule elgamal_keygen_returns)
  have enc: "elgamal_encrypt k plaintext pk = Inr c"
    using k0 p5 by (simp add: elgamal_encrypt_returns pk_def c_def)
  have "((eg_ct_r c ^ nat d) ^ nat (p - 2) * eg_ct_t c) mod p = plaintext mod p"
    using p randint_not_dvd [OF a]
    by (rule elgamal_unmask) (simp_all add: c_def)
  then have "elgamal_decrypt c pk sk = Inr plaintext"
    using d0 p5 m by (simp add: elgamal_decrypt_returns pk_def sk_def)
  with kg enc show ?thesis by blast
qed

theorem elgamal_roundtrip_witness:
  "is_prime 47 \<and> (5::int) \<le> 47 \<and> 5 \<in> randint 1 (47 - 1) \<and> 3 \<in> randint 2 (47 - 2)
   \<and> 2 \<in> randint 0 100 \<and> (0::int) \<le> 42 \<and> (42::int) < 47
   \<and> (\<exists>pk sk c. elgamal_keygen 47 5 3 = Inr (pk, sk)
        \<and> elgamal_encrypt 2 42 pk = Inr c
        \<and> elgamal_decrypt c pk sk = Inr 42)"
proof -
  have p: "is_prime 47" by code_simp
  have r: "5 \<in> randint 1 (47 - 1)" "3 \<in> randint 2 (47 - 2)" "2 \<in> randint 0 100"
    by (simp_all add: randint_def)
  from elgamal_roundtrip [OF p _ r, of 42] p r show ?thesis by simp
qed

text \<open>
  C1. For every prime \<open>p \<ge> 5\<close>, every key pair that \<open>keygen\<close> can return for \<open>p\<close>, all
  plaintexts \<open>m1\<close>, \<open>m2\<close> of \<open>[0, p)\<close> and all ephemeral exponents of the two encryptions,
  the product of the two ciphertexts decrypts to \<open>(m1 * m2) mod p\<close>.
\<close>

theorem elgamal_homomorphic:
  "is_prime p \<Longrightarrow> 5 \<le> p \<Longrightarrow> a \<in> randint 1 (p - 1) \<Longrightarrow> d \<in> randint 2 (p - 2) \<Longrightarrow>
   k1 \<in> randint 0 100 \<Longrightarrow> k2 \<in> randint 0 100 \<Longrightarrow>
   0 \<le> m1 \<Longrightarrow> m1 < p \<Longrightarrow> 0 \<le> m2 \<Longrightarrow> m2 < p \<Longrightarrow>
   \<exists>pk sk c1 c2. elgamal_keygen p a d = Inr (pk, sk)
     \<and> elgamal_encrypt k1 m1 pk = Inr c1
     \<and> elgamal_encrypt k2 m2 pk = Inr c2
     \<and> elgamal_decrypt (elgamal_mult c1 c2) pk sk = Inr ((m1 * m2) mod p)"
proof -
  assume p: "is_prime p" and p5: "5 \<le> p"
    and a: "a \<in> randint 1 (p - 1)" and d: "d \<in> randint 2 (p - 2)"
    and k1: "k1 \<in> randint 0 100" and k2: "k2 \<in> randint 0 100"
  define b where "b = a ^ nat d mod p"
  define pk where "pk = \<lparr>eg_pk_p = p, eg_pk_a = a, eg_pk_b = b\<rparr>"
  define sk where "sk = \<lparr>eg_sk_d = d\<rparr>"
  define c1 where "c1 = \<lparr>eg_ct_r = a ^ nat k1 mod p, eg_ct_t = (b ^ nat k1 * m1) mod p\<rparr>"
  define c2 where "c2 = \<lparr>eg_ct_r = a ^ nat k2 mod p, eg_ct_t = (b ^ nat k2 * m2) mod p\<rparr>"
  from d k1 k2 have d0: "0 \<le> d" and k10: "0 \<le> k1" and k20: "0 \<le> k2"
    by (simp_all add: randint_iff)
  have kg: "elgamal_keygen p a d = Inr (pk, sk)"
    unfolding pk_def sk_def b_def using a d by (rule elgamal_keygen_returns)
  have enc1: "elgamal_encrypt k1 m1 pk = Inr c1"
    using k10 p5 by (simp add: elgamal_encrypt_returns pk_def c1_def)
  have enc2: "elgamal_encrypt k2 m2 pk = Inr c2"
    using k20 p5 by (simp add: elgamal_encrypt_returns pk_def c2_def)
  define R T where "R = eg_ct_r (elgamal_mult c1 c2)" and "T = eg_ct_t (elgamal_mult c1 c2)"
  have "R mod p = ((a ^ nat k1 mod p) * (a ^ nat k2 mod p)) mod p"
    by (simp add: R_def elgamal_mult_def c1_def c2_def)
  also have "\<dots> = (a ^ nat k1 * a ^ nat k2) mod p"
    by (simp only: mod_mult_eq)
  finally have R: "R mod p = a ^ (nat k1 + nat k2) mod p"
    by (simp only: power_add)
  have "T mod p = (((b ^ nat k1 * m1) mod p) * ((b ^ nat k2 * m2) mod p)) mod p"
    by (simp add: T_def elgamal_mult_def c1_def c2_def)
  also have "\<dots> = ((b ^ nat k1 * m1) * (b ^ nat k2 * m2)) mod p"
    by (simp only: mod_mult_eq)
  also have "(b ^ nat k1 * m1) * (b ^ nat k2 * m2) = b ^ (nat k1 + nat k2) * (m1 * m2)"
    by (simp add: power_add)
  finally have T: "T mod p = ((a ^ nat d mod p) ^ (nat k1 + nat k2) * (m1 * m2)) mod p"
    by (simp only: b_def)
  have "((R ^ nat d) ^ nat (p - 2) * T) mod p = (m1 * m2) mod p"
    using p randint_not_dvd [OF a] R T by (rule elgamal_unmask)
  then have "elgamal_decrypt (elgamal_mult c1 c2) pk sk = Inr ((m1 * m2) mod p)"
    using d0 p5 by (simp add: elgamal_decrypt_returns pk_def sk_def R_def T_def)
  with kg enc1 enc2 show ?thesis by blast
qed

theorem elgamal_homomorphic_witness:
  "is_prime 47 \<and> (5::int) \<le> 47 \<and> 5 \<in> randint 1 (47 - 1) \<and> 3 \<in> randint 2 (47 - 2)
   \<and> 2 \<in> randint 0 100 \<and> 7 \<in> randint 0 100
   \<and> (0::int) \<le> 6 \<and> (6::int) < 47 \<and> (0::int) \<le> 5 \<and> (5::int) < 47
   \<and> (\<exists>pk sk c1 c2. elgamal_keygen 47 5 3 = Inr (pk, sk)
        \<and> elgamal_encrypt 2 6 pk = Inr c1
        \<and> elgamal_encrypt 7 5 pk = Inr c2
        \<and> elgamal_decrypt (elgamal_mult c1 c2) pk sk = Inr 30)"
proof -
  have p: "is_prime 47" by code_simp
  have r: "5 \<in> randint 1 (47 - 1)" "3 \<in> randint 2 (47 - 2)"
      "2 \<in> randint 0 100" "7 \<in> randint 0 100"
    by (simp_all add: randint_def)
  from elgamal_homomorphic [OF p _ r, of 6 5] p r show ?thesis by simp
qed

lemma is_prime_5: "is_prime 5"
  by code_simp

text \<open>
  C8 at the prime \<open>p = 5\<close>: the first draw of \<open>keygen\<close> is \<^verbatim>\<open>randint(1, p - 1)\<close>, which can
  return \<open>p - 1 = 4\<close>, and the key pair returned then has the generator \<open>4\<close>, above
  \<open>p - 2 = 3\<close>.
\<close>

theorem elgamal_keygen_generator_above_range:
  "4 \<in> randint 1 (5 - 1) \<and> 2 \<in> randint 2 (5 - 2)
   \<and> elgamal_keygen 5 4 2 = Inr (\<lparr>eg_pk_p = 5, eg_pk_a = 4, eg_pk_b = 1\<rparr>, \<lparr>eg_sk_d = 2\<rparr>)
   \<and> (5::int) - 2 < 4"
proof -
  have "4 \<in> randint 1 (5 - 1)" "2 \<in> randint 2 (5 - 2)"
    by (simp_all add: randint_def)
  moreover have "elgamal_keygen 5 4 2 = Inr (\<lparr>eg_pk_p = 5, eg_pk_a = 4, eg_pk_b = 1\<rparr>, \<lparr>eg_sk_d = 2\<rparr>)"
    by (simp add: elgamal_keygen_returns randint_def)
  ultimately show ?thesis by simp
qed

section \<open>RSA: encryption, decryption and the product of ciphertexts\<close>

lemma rsa_encrypt_returns:
  assumes "0 \<le> rsa_pk_e pk" "rsa_pk_n pk \<noteq> 0"
  shows "rsa_encrypt message pk = Inr \<lparr>rsa_ct_m = message ^ nat (rsa_pk_e pk) mod rsa_pk_n pk\<rparr>"
  using assms by (simp add: rsa_encrypt_def bind_err_def py_pow_def py_mod_def)

lemma rsa_decrypt_returns:
  assumes "0 \<le> rsa_sk_d sk" "rsa_sk_n sk \<noteq> 0"
  shows "rsa_decrypt c sk = Inr (rsa_ct_m c ^ nat (rsa_sk_d sk) mod rsa_sk_n sk)"
  using assms by (simp add: rsa_decrypt_def bind_err_def py_pow_def py_mod_def)

text \<open>
  C2, amended. For every RSA secret key \<open>(d, n)\<close> with \<open>n \<ge> 1\<close> and \<open>d \<ge> 0\<close> and all
  ciphertexts \<open>c1 = Ciphertext(m1)\<close>, \<open>c2 = Ciphertext(m2)\<close> with non-negative components,
  decrypting the product ciphertext gives \<open>(m1 * m2) ^ d mod n\<close>, which is the product of
  the two decryptions modulo \<open>n\<close>.
\<close>

theorem rsa_homomorphic:
  "1 \<le> n \<Longrightarrow> 0 \<le> d \<Longrightarrow> 0 \<le> m1 \<Longrightarrow> 0 \<le> m2 \<Longrightarrow>
   \<exists>x1 x2.
     rsa_decrypt \<lparr>rsa_ct_m = m1\<rparr> \<lparr>rsa_sk_d = d, rsa_sk_n = n\<rparr> = Inr x1
     \<and> rsa_decrypt \<lparr>rsa_ct_m = m2\<rparr> \<lparr>rsa_sk_d = d, rsa_sk_n = n\<rparr> = Inr x2
     \<and> rsa_decrypt (rsa_mult \<lparr>rsa_ct_m = m1\<rparr> \<lparr>rsa_ct_m = m2\<rparr>) \<lparr>rsa_sk_d = d, rsa_sk_n = n\<rparr>
         = Inr ((m1 * m2) ^ nat d mod n)
     \<and> (m1 * m2) ^ nat d mod n = (x1 * x2) mod n"
proof -
  assume n: "1 \<le> n" and d: "0 \<le> d"
  let ?sk = "\<lparr>rsa_sk_d = d, rsa_sk_n = n\<rparr>"
  have d1: "rsa_decrypt \<lparr>rsa_ct_m = m1\<rparr> ?sk = Inr (m1 ^ nat d mod n)"
    using n d by (simp add: rsa_decrypt_returns)
  have d2: "rsa_decrypt \<lparr>rsa_ct_m = m2\<rparr> ?sk = Inr (m2 ^ nat d mod n)"
    using n d by (simp add: rsa_decrypt_returns)
  have d12: "rsa_decrypt (rsa_mult \<lparr>rsa_ct_m = m1\<rparr> \<lparr>rsa_ct_m = m2\<rparr>) ?sk
      = Inr ((m1 * m2) ^ nat d mod n)"
    using n d by (simp add: rsa_decrypt_returns rsa_mult_def)
  have "(m1 * m2) ^ nat d mod n = (m1 ^ nat d * m2 ^ nat d) mod n"
    by (simp only: power_mult_distrib)
  also have "\<dots> = ((m1 ^ nat d mod n) * (m2 ^ nat d mod n)) mod n"
    by (simp only: mod_mult_eq)
  finally show ?thesis using d1 d2 d12 by blast
qed

theorem rsa_homomorphic_witness:
  "(1::int) \<le> 3233 \<and> (0::int) \<le> 3 \<and> (0::int) \<le> 1898 \<and> (0::int) \<le> 533
   \<and> (\<exists>x1 x2.
     rsa_decrypt \<lparr>rsa_ct_m = 1898\<rparr> \<lparr>rsa_sk_d = 3, rsa_sk_n = 3233\<rparr> = Inr x1
     \<and> rsa_decrypt \<lparr>rsa_ct_m = 533\<rparr> \<lparr>rsa_sk_d = 3, rsa_sk_n = 3233\<rparr> = Inr x2
     \<and> rsa_decrypt (rsa_mult \<lparr>rsa_ct_m = 1898\<rparr> \<lparr>rsa_ct_m = 533\<rparr>) \<lparr>rsa_sk_d = 3, rsa_sk_n = 3233\<rparr>
         = Inr ((1898 * 533) ^ nat 3 mod 3233)
     \<and> (1898 * 533) ^ nat 3 mod 3233 = (x1 * x2) mod 3233)"
  using rsa_homomorphic [of 3233 3 1898 533] by simp

text \<open>
  Without the bound on \<open>d\<close> the equation of C2 fails: under the key \<open>(d, n) = (-1, 5)\<close> the
  product of \<open>Ciphertext(0)\<close> and \<open>Ciphertext(3)\<close> is \<open>Ciphertext(0)\<close>, and \<^verbatim>\<open>0 ** -1\<close>
  raises, so \<open>decrypt\<close> returns no value on the product, nor on \<open>Ciphertext(0)\<close> itself.
\<close>

theorem rsa_homomorphic_negative_exponent_counterexample:
  "(1::int) \<le> 5 \<and> (0::int) \<le> 0 \<and> (0::int) \<le> 3
   \<and> rsa_mult \<lparr>rsa_ct_m = 0\<rparr> \<lparr>rsa_ct_m = 3\<rparr> = \<lparr>rsa_ct_m = 0\<rparr>
   \<and> rsa_decrypt (rsa_mult \<lparr>rsa_ct_m = 0\<rparr> \<lparr>rsa_ct_m = 3\<rparr>) \<lparr>rsa_sk_d = - 1, rsa_sk_n = 5\<rparr>
       = Inl ZeroDivisionError
   \<and> rsa_decrypt \<lparr>rsa_ct_m = 0\<rparr> \<lparr>rsa_sk_d = - 1, rsa_sk_n = 5\<rparr> = Inl ZeroDivisionError"
  by (simp add: rsa_decrypt_def rsa_mult_def bind_err_def py_pow_def)

text \<open>
  C10. Both decryptions return a value of \<open>[0, modulus)\<close>, also on the unreduced ciphertexts
  that the products make: ElGamal for every ciphertext with non-negative components, prime
  \<open>p \<ge> 2\<close> and secret exponent \<open>d \<ge> 0\<close>; RSA for every ciphertext with non-negative
  component, \<open>n \<ge> 1\<close> and \<open>d \<ge> 0\<close>.
\<close>

theorem decrypt_reduced:
  "(is_prime (eg_pk_p pk) \<and> 2 \<le> eg_pk_p pk \<and> 0 \<le> eg_sk_d sk \<and> 0 \<le> eg_ct_r c \<and> 0 \<le> eg_ct_t c
      \<longrightarrow> (\<exists>v. elgamal_decrypt c pk sk = Inr v \<and> 0 \<le> v \<and> v < eg_pk_p pk))
   \<and> (1 \<le> rsa_sk_n rsk \<and> 0 \<le> rsa_sk_d rsk \<and> 0 \<le> rsa_ct_m rc
      \<longrightarrow> (\<exists>v. rsa_decrypt rc rsk = Inr v \<and> 0 \<le> v \<and> v < rsa_sk_n rsk))"
  by (simp add: elgamal_decrypt_returns rsa_decrypt_returns)

theorem decrypt_reduced_witness:
  "(is_prime 47 \<and> (2::int) \<le> 47 \<and> (0::int) \<le> 3 \<and> (0::int) \<le> 378 \<and> (0::int) \<le> 52
      \<and> (\<exists>v. elgamal_decrypt \<lparr>eg_ct_r = 378, eg_ct_t = 52\<rparr>
               \<lparr>eg_pk_p = 47, eg_pk_a = 5, eg_pk_b = 31\<rparr> \<lparr>eg_sk_d = 3\<rparr> = Inr v \<and> 0 \<le> v \<and> v < 47))
   \<and> ((1::int) \<le> 3233 \<and> (0::int) \<le> 3 \<and> (0::int) \<le> 1011634
      \<and> (\<exists>v. rsa_decrypt \<lparr>rsa_ct_m = 1011634\<rparr> \<lparr>rsa_sk_d = 3, rsa_sk_n = 3233\<rparr> = Inr v
             \<and> 0 \<le> v \<and> v < 3233))"
proof -
  have p: "is_prime 47" by code_simp
  from decrypt_reduced [of "\<lparr>eg_pk_p = 47, eg_pk_a = 5, eg_pk_b = 31\<rparr>" "\<lparr>eg_sk_d = 3\<rparr>"
      "\<lparr>eg_ct_r = 378, eg_ct_t = 52\<rparr>" "\<lparr>rsa_sk_d = 3, rsa_sk_n = 3233\<rparr>" "\<lparr>rsa_ct_m = 1011634\<rparr>"] p
  show ?thesis by simp
qed


section \<open>RSA: key generation\<close>

text \<open>The scan returns the first exponent coprime to \<open>phi\<close> at or after its start.\<close>

lemma keygen_scan_stop: "gcd phi e = 1 \<Longrightarrow> keygen_scan phi e = Some e"
  by (subst keygen_scan.simps) simp

lemma keygen_scan_step: "gcd phi e \<noteq> 1 \<Longrightarrow> keygen_scan phi e = keygen_scan phi (e + 1)"
  by (subst keygen_scan.simps) simp

lemma keygen_scan_finds:
  assumes "gcd phi (e + int k) = 1" "\<forall>j<k. gcd phi (e + int j) \<noteq> 1"
  shows "keygen_scan phi e = Some (e + int k)"
  using assms
proof (induction k arbitrary: e)
  case 0
  from "0.prems"(1) have "gcd phi e = 1" by simp
  then have "keygen_scan phi e = Some e" by (rule keygen_scan_stop)
  then show ?case by simp
next
  case (Suc k)
  have shift: "e + int (Suc j) = (e + 1) + int j" for j
    by simp
  from Suc.prems(2) have "0 < Suc k \<longrightarrow> gcd phi (e + int 0) \<noteq> 1" by (rule spec)
  then have here: "gcd phi e \<noteq> 1" by simp
  have "gcd phi ((e + 1) + int k) = 1"
    using Suc.prems(1) by (simp only: shift)
  moreover have "\<forall>j<k. gcd phi ((e + 1) + int j) \<noteq> 1"
  proof (intro allI impI)
    fix j assume "j < k"
    then have "Suc j < Suc k" by simp
    moreover from Suc.prems(2) have "Suc j < Suc k \<longrightarrow> gcd phi (e + int (Suc j)) \<noteq> 1"
      by (rule spec)
    ultimately have "gcd phi (e + int (Suc j)) \<noteq> 1" by (rule rev_mp)
    then show "gcd phi ((e + 1) + int j) \<noteq> 1" by (simp only: shift not_False_eq_True)
  qed
  ultimately have "keygen_scan phi (e + 1) = Some ((e + 1) + int k)"
    by (rule Suc.IH)
  then have "keygen_scan phi (e + 1) = Some (e + int (Suc k))"
    by (simp only: shift)
  moreover from here have "keygen_scan phi e = keygen_scan phi (e + 1)"
    by (rule keygen_scan_step)
  ultimately show ?case by (simp only:)
qed

lemma coprime_above_exists:
  fixes phi :: int
  assumes "phi \<noteq> 0"
  shows "\<exists>k. gcd phi (2 + int k) = 1"
proof -
  from assms have "1 \<le> \<bar>phi\<bar>" by simp
  then have k: "2 + int (nat (\<bar>phi\<bar> - 1)) = 1 + \<bar>phi\<bar>" by simp
  have "gcd (1 + \<bar>phi\<bar>) \<bar>phi\<bar> = gcd 1 \<bar>phi\<bar>"
    by (rule gcd_add1)
  then have "gcd \<bar>phi\<bar> (1 + \<bar>phi\<bar>) = 1"
    by (simp add: gcd.commute)
  then have "gcd phi (1 + \<bar>phi\<bar>) = 1"
    by (simp only: gcd_abs1_int)
  then have "gcd phi (2 + int (nat (\<bar>phi\<bar> - 1))) = 1"
    by (simp only: k)
  then show ?thesis by (rule exI)
qed

lemma keygen_scan_returns:
  assumes "phi \<noteq> 0"
  shows "\<exists>e. keygen_scan phi 2 = Some e \<and> 2 \<le> e \<and> gcd e phi = 1
             \<and> (\<forall>e'. 2 \<le> e' \<and> e' < e \<longrightarrow> gcd e' phi \<noteq> 1)"
proof -
  define k where "k = (LEAST k. gcd phi (2 + int k) = 1)"
  have k1: "gcd phi (2 + int k) = 1"
    unfolding k_def using coprime_above_exists [OF assms] by (rule LeastI_ex)
  have k2: "gcd phi (2 + int j) \<noteq> 1" if "j < k" for j
    using that unfolding k_def by (rule not_less_Least)
  have scan: "keygen_scan phi 2 = Some (2 + int k)"
  proof (rule keygen_scan_finds)
    show "gcd phi (2 + int k) = 1" by (rule k1)
    show "\<forall>j<k. gcd phi (2 + int j) \<noteq> 1" using k2 by simp
  qed
  have co: "gcd (2 + int k) phi = 1"
    using k1 by (simp only: gcd.commute)
  have least: "gcd e' phi \<noteq> 1" if "2 \<le> e' \<and> e' < 2 + int k" for e'
  proof -
    from that have lt: "nat (e' - 2) < k" and e': "2 + int (nat (e' - 2)) = e'" by linarith+
    from lt have "gcd phi (2 + int (nat (e' - 2))) \<noteq> 1" by (rule k2)
    then show ?thesis by (simp only: e' gcd.commute [of phi] not_False_eq_True)
  qed
  show ?thesis
  proof (rule exI [of _ "2 + int k"], intro conjI allI impI)
    show "keygen_scan phi 2 = Some (2 + int k)" by (rule scan)
    show "2 \<le> 2 + int k" by simp
    show "gcd (2 + int k) phi = 1" by (rule co)
    show "gcd e' phi \<noteq> 1" if "2 \<le> e' \<and> e' < 2 + int k" for e'
      using that by (rule least)
  qed
qed

text \<open>With \<open>phi = 0\<close> no exponent from \<open>2\<close> on is coprime to \<open>phi\<close>, and the scan never returns.\<close>

lemma keygen_scan_sound:
  assumes "keygen_scan phi e = Some y"
  shows "e \<le> y \<and> gcd phi y = 1"
proof (rule keygen_scan.raw_induct [where P = "\<lambda>phi e y. e \<le> y \<and> gcd phi y = 1", OF _ assms])
  fix scan :: "int \<Rightarrow> int \<Rightarrow> int option" and phi e y
  assume IH: "\<And>phi e y. scan phi e = Some y \<Longrightarrow> e \<le> y \<and> gcd phi y = 1"
    and step: "(if gcd phi e \<noteq> 1 then scan phi (e + 1) else Some e) = Some y"
  show "e \<le> y \<and> gcd phi y = 1"
  proof (cases "gcd phi e \<noteq> 1")
    case True
    with step have "scan phi (e + 1) = Some y" by simp
    then have "e + 1 \<le> y \<and> gcd phi y = 1" by (rule IH)
    then show ?thesis by simp
  next
    case False
    with step show ?thesis by simp
  qed
qed

lemma keygen_scan_diverges: "keygen_scan 0 2 = None"
proof (cases "keygen_scan 0 2")
  case None
  then show ?thesis .
next
  case (Some y)
  then have "2 \<le> y \<and> gcd 0 y = 1" by (rule keygen_scan_sound)
  then have "2 \<le> y \<and> \<bar>y\<bar> = 1" by simp
  then have False by linarith
  then show ?thesis ..
qed

lemma modinv_of_scan:
  assumes "2 \<le> e" "gcd e phi = 1" "phi \<noteq> 0"
  shows "modinv e phi = Inr (fst (snd (egcd e phi)) mod phi)"
proof -
  have "fst (egcd e phi) = gcd e phi"
    using assms(1) by (simp add: egcd_gcd)
  with assms show ?thesis by (simp add: modinv_unfold py_mod_def)
qed

lemma is_prime_phi:
  assumes "is_prime p" "is_prime q"
  shows "1 \<le> (p - 1) * (q - 1)"
proof -
  from assms have "1 \<le> p - 1" "1 \<le> q - 1" by (simp_all add: is_prime_def)
  then have "1 * 1 \<le> (p - 1) * (q - 1)" by (intro mult_mono) simp_all
  then show ?thesis by simp
qed

text \<open>
  C9. For all primes \<open>p\<close> and \<open>q\<close>, \<open>keygen p q\<close> returns, and what it returns is a key pair
  and not the error of the missing inverse: the scan ends at an exponent coprime to
  \<open>phi\<close>, on which \<open>modinv\<close> returns.
\<close>

theorem rsa_keygen_total:
  "is_prime p \<Longrightarrow> is_prime q \<Longrightarrow>
   (\<exists>e d. keygen_scan ((p - 1) * (q - 1)) 2 = Some e \<and> gcd e ((p - 1) * (q - 1)) = 1
        \<and> modinv e ((p - 1) * (q - 1)) = Inr d
        \<and> rsa_keygen p q = Some (Inr (\<lparr>rsa_pk_e = e, rsa_pk_n = p * q\<rparr>,
                                       \<lparr>rsa_sk_d = d, rsa_sk_n = p * q\<rparr>)))
   \<and> rsa_keygen p q \<noteq> None \<and> rsa_keygen p q \<noteq> Some (Inl NoModularInverse)"
proof -
  assume "is_prime p" "is_prime q"
  then have "1 \<le> (p - 1) * (q - 1)"
    by (rule is_prime_phi)
  then have phi: "(p - 1) * (q - 1) \<noteq> 0"
    by linarith
  from keygen_scan_returns [OF phi] obtain e where
    e: "keygen_scan ((p - 1) * (q - 1)) 2 = Some e" "2 \<le> e" "gcd e ((p - 1) * (q - 1)) = 1"
    by (elim exE conjE)
  define d where "d = fst (snd (egcd e ((p - 1) * (q - 1)))) mod ((p - 1) * (q - 1))"
  have d: "modinv e ((p - 1) * (q - 1)) = Inr d"
    unfolding d_def using e(2,3) phi by (rule modinv_of_scan)
  have kg: "rsa_keygen p q = Some (Inr (\<lparr>rsa_pk_e = e, rsa_pk_n = p * q\<rparr>,
                                         \<lparr>rsa_sk_d = d, rsa_sk_n = p * q\<rparr>))"
    by (simp add: rsa_keygen_def bind_err_def Let_def e(1) d)
  have "\<exists>e d. keygen_scan ((p - 1) * (q - 1)) 2 = Some e \<and> gcd e ((p - 1) * (q - 1)) = 1
        \<and> modinv e ((p - 1) * (q - 1)) = Inr d
        \<and> rsa_keygen p q = Some (Inr (\<lparr>rsa_pk_e = e, rsa_pk_n = p * q\<rparr>,
                                       \<lparr>rsa_sk_d = d, rsa_sk_n = p * q\<rparr>))"
    using e(1) e(3) d kg by (intro exI conjI)
  moreover have "rsa_keygen p q \<noteq> None"
    by (simp add: kg)
  moreover have "rsa_keygen p q \<noteq> Some (Inl NoModularInverse)"
    by (simp add: kg)
  ultimately show ?thesis by (intro conjI)
qed

theorem rsa_keygen_total_witness:
  "is_prime 3 \<and> is_prime 5
   \<and> (\<exists>e d. keygen_scan ((3 - 1) * (5 - 1)) 2 = Some e \<and> gcd e ((3 - 1) * (5 - 1)) = 1
        \<and> modinv e ((3 - 1) * (5 - 1)) = Inr d
        \<and> rsa_keygen 3 5 = Some (Inr (\<lparr>rsa_pk_e = e, rsa_pk_n = 3 * 5\<rparr>,
                                       \<lparr>rsa_sk_d = d, rsa_sk_n = 3 * 5\<rparr>)))
   \<and> rsa_keygen 3 5 \<noteq> None \<and> rsa_keygen 3 5 \<noteq> Some (Inl NoModularInverse)"
proof -
  have p: "is_prime 3" "is_prime 5" by code_simp code_simp
  from rsa_keygen_total [OF p] p show ?thesis by simp
qed

text \<open>
  C5. \<open>keygen p q\<close> is a function of \<open>(p, q)\<close>: the modulus of both keys is \<open>p * q\<close>, the
  public exponent is the least \<open>e \<ge> 2\<close> with \<open>gcd e phi = 1\<close> for \<open>phi = (p - 1) * (q - 1)\<close>,
  and the secret exponent is \<open>modinv e phi\<close>; \<open>keygen 61 53\<close> is the public key
  \<open>(7, 3233)\<close> with the secret key \<open>(1783, 3233)\<close>. The scan needs \<open>phi \<noteq> 0\<close> to end, which
  primes give.
\<close>

theorem rsa_keygen_deterministic:
  "(p - 1) * (q - 1) \<noteq> 0 \<Longrightarrow>
   (\<exists>e d. rsa_keygen p q = Some (Inr (\<lparr>rsa_pk_e = e, rsa_pk_n = p * q\<rparr>,
                                       \<lparr>rsa_sk_d = d, rsa_sk_n = p * q\<rparr>))
        \<and> 2 \<le> e \<and> gcd e ((p - 1) * (q - 1)) = 1
        \<and> (\<forall>e'. 2 \<le> e' \<and> e' < e \<longrightarrow> gcd e' ((p - 1) * (q - 1)) \<noteq> 1)
        \<and> modinv e ((p - 1) * (q - 1)) = Inr d)
   \<and> rsa_keygen 61 53 = Some (Inr (\<lparr>rsa_pk_e = 7, rsa_pk_n = 3233\<rparr>,
                                    \<lparr>rsa_sk_d = 1783, rsa_sk_n = 3233\<rparr>))"
proof (intro conjI)
  assume phi: "(p - 1) * (q - 1) \<noteq> 0"
  from keygen_scan_returns [OF phi] obtain e where
    e: "keygen_scan ((p - 1) * (q - 1)) 2 = Some e" "2 \<le> e" "gcd e ((p - 1) * (q - 1)) = 1"
      "\<forall>e'. 2 \<le> e' \<and> e' < e \<longrightarrow> gcd e' ((p - 1) * (q - 1)) \<noteq> 1"
    by (elim exE conjE)
  define d where "d = fst (snd (egcd e ((p - 1) * (q - 1)))) mod ((p - 1) * (q - 1))"
  have d: "modinv e ((p - 1) * (q - 1)) = Inr d"
    unfolding d_def using e(2,3) phi by (rule modinv_of_scan)
  have kg: "rsa_keygen p q = Some (Inr (\<lparr>rsa_pk_e = e, rsa_pk_n = p * q\<rparr>,
                                         \<lparr>rsa_sk_d = d, rsa_sk_n = p * q\<rparr>))"
    by (simp add: rsa_keygen_def bind_err_def Let_def e(1) d)
  from kg e(2) e(3) e(4) d show "\<exists>e d. rsa_keygen p q = Some (Inr (\<lparr>rsa_pk_e = e, rsa_pk_n = p * q\<rparr>,
                                       \<lparr>rsa_sk_d = d, rsa_sk_n = p * q\<rparr>))
        \<and> 2 \<le> e \<and> gcd e ((p - 1) * (q - 1)) = 1
        \<and> (\<forall>e'. 2 \<le> e' \<and> e' < e \<longrightarrow> gcd e' ((p - 1) * (q - 1)) \<noteq> 1)
        \<and> modinv e ((p - 1) * (q - 1)) = Inr d"
    by (intro exI conjI)
next
  show "rsa_keygen 61 53 = Some (Inr (\<lparr>rsa_pk_e = 7, rsa_pk_n = 3233\<rparr>,
                                    \<lparr>rsa_sk_d = 1783, rsa_sk_n = 3233\<rparr>))"
    by code_simp
qed

theorem rsa_keygen_deterministic_witness:
  "((3::int) - 1) * (5 - 1) \<noteq> 0
   \<and> (\<exists>e d. rsa_keygen 3 5 = Some (Inr (\<lparr>rsa_pk_e = e, rsa_pk_n = 3 * 5\<rparr>,
                                       \<lparr>rsa_sk_d = d, rsa_sk_n = 3 * 5\<rparr>))
        \<and> 2 \<le> e \<and> gcd e ((3 - 1) * (5 - 1)) = 1
        \<and> (\<forall>e'. 2 \<le> e' \<and> e' < e \<longrightarrow> gcd e' ((3 - 1) * (5 - 1)) \<noteq> 1)
        \<and> modinv e ((3 - 1) * (5 - 1)) = Inr d)"
  using rsa_keygen_deterministic [of 3 5] by simp

section \<open>RSA: round trip\<close>

lemma fermat_cycle:
  assumes "is_prime p"
  shows "x ^ (1 + j * nat (p - 1)) mod p = x mod p"
proof (cases "p dvd x")
  case True
  then have "p dvd x ^ (1 + j * nat (p - 1))" by simp
  with True show ?thesis by (simp only: mod_0_imp_dvd dvd_imp_mod_0)
next
  case False
  with assms have one: "x ^ nat (p - 1) mod p = 1" by (rule fermat_little)
  from assms have p: "2 \<le> p" by (simp add: is_prime_def)
  have "(x ^ nat (p - 1)) ^ j mod p = (x ^ nat (p - 1) mod p) ^ j mod p"
    by (simp only: power_mod)
  also have "\<dots> = 1" using p by (simp add: one)
  finally have cyc: "(x ^ nat (p - 1)) ^ j mod p = 1" .
  have "x ^ (1 + j * nat (p - 1)) = x ^ (1 + nat (p - 1) * j)"
    by (simp only: mult.commute)
  also have "\<dots> = x * (x ^ nat (p - 1)) ^ j"
    by (simp only: power_add power_one_right power_mult)
  also have "(x * (x ^ nat (p - 1)) ^ j) mod p = (x * ((x ^ nat (p - 1)) ^ j mod p)) mod p"
    by (simp only: mod_mult_right_eq)
  also have "\<dots> = x mod p" by (simp add: cyc)
  finally show ?thesis .
qed

lemma is_prime_distinct_coprime:
  assumes "is_prime p" "is_prime q" "p \<noteq> q"
  shows "coprime p q"
proof (rule is_prime_coprime [OF assms(1)])
  show "\<not> p dvd q"
  proof
    assume "p dvd q"
    moreover from assms(1) have "0 \<le> p" "p \<noteq> 1" by (simp_all add: is_prime_def)
    ultimately show False
      using is_prime_divisors [OF assms(2), of p] assms(3) by simp
  qed
qed

lemma rsa_exponents:
  assumes p: "is_prime p" and q: "is_prime q" and pq: "p \<noteq> q"
    and ed: "ed = 1 + j * (nat (p - 1) * nat (q - 1))"
  shows "x ^ ed mod (p * q) = x mod (p * q)"
proof -
  have "ed = 1 + (j * nat (q - 1)) * nat (p - 1)"
    by (simp add: ed mult.commute mult.left_commute)
  then have "x ^ ed mod p = x mod p"
    using fermat_cycle [OF p] by simp
  then have dp: "p dvd x ^ ed - x"
    by (simp only: mod_eq_dvd_iff)
  have "ed = 1 + (j * nat (p - 1)) * nat (q - 1)"
    by (simp add: ed mult.assoc)
  then have "x ^ ed mod q = x mod q"
    using fermat_cycle [OF q] by simp
  then have dq: "q dvd x ^ ed - x"
    by (simp only: mod_eq_dvd_iff)
  have "coprime p q" using p q pq by (rule is_prime_distinct_coprime)
  with dp dq have "p * q dvd x ^ ed - x" by (rule divides_mult)
  then show ?thesis by (simp only: mod_eq_dvd_iff)
qed

text \<open>
  C4. For the key pair of \<open>keygen 61 53\<close> and every plaintext \<open>m\<close> of \<open>[0, 3233)\<close>,
  \<open>42\<close> among them, decrypting the encryption of \<open>m\<close> gives \<open>m\<close>.
\<close>

theorem rsa_roundtrip_61_53:
  "0 \<le> m \<Longrightarrow> m < 3233 \<Longrightarrow>
   \<exists>pk sk c. rsa_keygen 61 53 = Some (Inr (pk, sk))
     \<and> rsa_encrypt m pk = Inr c
     \<and> rsa_decrypt c sk = Inr m"
proof -
  assume m: "0 \<le> m" "m < 3233"
  let ?pk = "\<lparr>rsa_pk_e = 7, rsa_pk_n = 3233\<rparr>"
  let ?sk = "\<lparr>rsa_sk_d = 1783, rsa_sk_n = 3233\<rparr>"
  let ?c = "\<lparr>rsa_ct_m = m ^ 7 mod 3233\<rparr>"
  have kg: "rsa_keygen 61 53 = Some (Inr (?pk, ?sk))"
    by code_simp
  have enc: "rsa_encrypt m ?pk = Inr ?c"
    by (simp add: rsa_encrypt_returns)
  have p: "is_prime 61" and q: "is_prime 53"
    by code_simp code_simp
  have "(12481::nat) = 1 + 4 * (nat (61 - 1) * nat (53 - 1))"
    by simp
  with p q have "m ^ 12481 mod (61 * 53) = m mod (61 * 53)"
    by (intro rsa_exponents) simp_all
  then have cyc: "m ^ 12481 mod 3233 = m"
    using m by simp
  have "(m ^ 7 mod 3233) ^ 1783 mod 3233 = (m ^ 7) ^ 1783 mod 3233"
    by (simp only: power_mod)
  also have "(m ^ 7) ^ 1783 = m ^ 12481"
    by (simp add: power_mult [symmetric])
  finally have "(m ^ 7 mod 3233) ^ 1783 mod 3233 = m"
    by (simp only: cyc)
  then have dec: "rsa_decrypt ?c ?sk = Inr m"
    by (simp add: rsa_decrypt_returns)
  from kg enc dec show ?thesis by (intro exI conjI)
qed

theorem rsa_roundtrip_61_53_witness:
  "(0::int) \<le> 42 \<and> (42::int) < 3233
   \<and> (\<exists>pk sk c. rsa_keygen 61 53 = Some (Inr (pk, sk))
        \<and> rsa_encrypt 42 pk = Inr c
        \<and> rsa_decrypt c sk = Inr 42)"
  using rsa_roundtrip_61_53 [of 42] by simp

end
